theory Spec2Isabelle
  imports Main
begin

section \<open>Data model of the adapter\<close>

text \<open>
  The adapter (\<^verbatim>\<open>PrismaNodeSQLiteAdapter\<close>, \<^verbatim>\<open>NodeSQLiteQueryable\<close>,
  \<^verbatim>\<open>NodeSQLiteTransaction\<close>) sits between the ORM runtime and the \<^verbatim>\<open>node:sqlite\<close>
  client. Everything the adapter calls but does not define is a parameter of the model:
  the client (\<open>engine\<close>), the value converter and the error translator (\<open>conversion\<close>).
  Values thrown by them have the type \<open>'x\<close>; \<open>null\<close> cells of a row are \<open>None\<close>.
\<close>

subsection \<open>Types of the ORM contract\<close>

text \<open>The string union \<^verbatim>\<open>IsolationLevel\<close> and the literal each member stands for.\<close>

datatype IsolationLevel =
  READ_UNCOMMITTED | READ_COMMITTED | REPEATABLE_READ | SNAPSHOT | SERIALIZABLE

fun level_literal :: "IsolationLevel \<Rightarrow> string" where
  "level_literal READ_UNCOMMITTED = ''READ UNCOMMITTED''"
| "level_literal READ_COMMITTED = ''READ COMMITTED''"
| "level_literal REPEATABLE_READ = ''REPEATABLE READ''"
| "level_literal SNAPSHOT = ''SNAPSHOT''"
| "level_literal SERIALIZABLE = ''SERIALIZABLE''"

record TransactionOptions =
  usePhantomQuery :: bool

datatype timestamp_format = iso8601 | unixepoch_ms

record PrismaNodeSQLiteOptions =
  shadowDatabaseUrl :: "string option"
  timestampFormat :: "timestamp_format option"

record ('a, 'ty) SqlQuery =
  sql :: string
  args :: "'a list"
  argTypes :: "'ty list"

text \<open>The logical column types of the ORM contract, as the specification enumerates them.\<close>

datatype ColumnType =
  CtText | CtInt32 | CtInt64 | CtFloat | CtNumeric | CtBoolean | CtDateTime | CtJson
  | CtBytes | CtNull | CtUnknown

record 'w SqlResultSet =
  columnNames :: "string list"
  columnTypes :: "ColumnType list"
  rows :: "'w list"

text \<open>
  What a call can throw: a \<^verbatim>\<open>DriverAdapterError\<close> carrying either the
  invalid-isolation-level case or the translation of a thrown value, or a thrown value
  that left the call untranslated.
\<close>

datatype 'm Error = InvalidIsolationLevel string | Mapped 'm

datatype ('x, 'm) thrown = DriverAdapterError "'m Error" | Uncaught 'x

subsection \<open>The client\<close>

record column =
  col_name :: string
  col_type :: "string option"

text \<open>
  A prepared statement: its result columns and whether the object has the optional
  method \<^verbatim>\<open>setReturnArrays\<close>.
\<close>

record statement =
  columns :: "column list"
  has_setReturnArrays :: bool

record stmt_config =
  returnArrays :: bool
  readBigInts :: bool

text \<open>
  \<^verbatim>\<open>NodeSQLiteMeta\<close>. The count is an integral number of the engine;
  \<^verbatim>\<open>executeIO\<close> never switches big-integer reads on, so \<^verbatim>\<open>Number\<close>
  receives a number and returns it as it is.
\<close>

record NodeSQLiteMeta =
  changes :: int
  lastInsertRowid :: int

definition Number_of :: "int \<Rightarrow> int" where
  "Number_of n = n"

record 'v NodeSQLiteResultSet =
  declaredTypes :: "string option list"
  io_columnNames :: "string list"
  io_values :: "'v option list list"

text \<open>
  The client's operations on a database state \<open>'db\<close>. Preparing compiles a statement
  and may throw; running a statement returns its outcome and the database state after it.
\<close>

record ('db, 'b, 'v, 'x) engine =
  client_prepare :: "'db \<Rightarrow> string \<Rightarrow> 'x + statement"
  stmt_run :: "'db \<Rightarrow> string \<Rightarrow> stmt_config \<Rightarrow> 'b list \<Rightarrow> ('x + NodeSQLiteMeta) \<times> 'db"
  stmt_all :: "'db \<Rightarrow> string \<Rightarrow> stmt_config \<Rightarrow> 'b list \<Rightarrow> ('x + 'v option list list) \<times> 'db"
  client_exec :: "'db \<Rightarrow> string \<Rightarrow> 'x option \<times> 'db"

text \<open>Every call that hands statement text to the client is recorded, whether it throws or not.\<close>

datatype 'b engine_call =
  Prepare string | Run string "'b list" | All string "'b list" | Exec string

subsection \<open>The value converter and the error translator\<close>

text \<open>
  \<^verbatim>\<open>mapArg\<close>, \<^verbatim>\<open>mapRow\<close> and \<^verbatim>\<open>convertDriverError\<close> are imported from
  \<^verbatim>\<open>./conversion.js\<close> and \<^verbatim>\<open>./errors.js\<close>. The queryable only calls them, so they
  are parameters, as are the two helpers of column-type inference: the logical type of a
  declared type name, if it has one, and the logical type read off a value's shape.
  Each of the three is an ordinary call that may throw instead of returning (\<open>Inl\<close>):
  \<^verbatim>\<open>convertDriverError\<close> either returns the translation of the error or throws.
\<close>

record ('a, 'ty, 'b, 'v, 'w, 'x, 'm) conversion =
  mapArg :: "'a \<Rightarrow> 'ty option \<Rightarrow> PrismaNodeSQLiteOptions option \<Rightarrow> 'x + 'b"
  mapRow :: "'v option list \<Rightarrow> ColumnType list \<Rightarrow> 'x + 'w"
  convertDriverError :: "'x \<Rightarrow> 'x + 'm"
  mapDeclType :: "string \<Rightarrow> ColumnType option"
  inferColumnType :: "'v \<Rightarrow> ColumnType"

subsection \<open>The exclusive lock and the state of the world\<close>

text \<open>
  The adapter's \<^verbatim>\<open>#mutex\<close> is a \<^verbatim>\<open>Mutex\<close> of the package \<^verbatim>\<open>async-mutex\<close>: a
  semaphore of value one with a queue of waiting \<^verbatim>\<open>acquire\<close> calls. Each call of
  \<^verbatim>\<open>acquire\<close> is identified by a number. \<open>mresolved\<close> lists the calls whose promise
  has been resolved with a releaser, \<open>mcalled\<close> the releasers whose \<^verbatim>\<open>called\<close> flag
  is set. \<open>sql_log\<close> records the calls made to the client.
\<close>

record ('db, 'b) world =
  db :: 'db
  sql_log :: "'b engine_call list"
  mvalue :: int
  mqueue :: "nat list"
  mresolved :: "nat list"
  mcalled :: "nat list"

definition log_call :: "'b engine_call \<Rightarrow> ('db, 'b) world \<Rightarrow> ('db, 'b) world" where
  "log_call c w = w\<lparr>sql_log := sql_log w @ [c]\<rparr>"

definition dispatchItem :: "nat \<Rightarrow> ('db, 'b) world \<Rightarrow> ('db, 'b) world" where
  "dispatchItem t w = w\<lparr>mvalue := mvalue w - 1, mresolved := mresolved w @ [t]\<rparr>"

text \<open>
  \<^verbatim>\<open>acquire\<close> with weight one and the default priority: dispatched at once when
  nothing waits and the value allows it, appended to the queue otherwise.
\<close>

definition acquire :: "nat \<Rightarrow> ('db, 'b) world \<Rightarrow> ('db, 'b) world" where
  "acquire t w =
     (if mqueue w = [] \<and> 1 \<le> mvalue w then dispatchItem t w
      else w\<lparr>mqueue := mqueue w @ [t]\<rparr>)"

text \<open>The loop of \<^verbatim>\<open>_dispatchQueue\<close>: hand the lock to waiting calls while the value allows.\<close>

fun dispatchQueue_loop :: "nat list \<Rightarrow> ('db, 'b) world \<Rightarrow> ('db, 'b) world" where
  "dispatchQueue_loop [] w = w\<lparr>mqueue := []\<rparr>"
| "dispatchQueue_loop (t # ts) w =
     (if 1 \<le> mvalue w then dispatchQueue_loop ts (dispatchItem t (w\<lparr>mqueue := ts\<rparr>))
      else w\<lparr>mqueue := t # ts\<rparr>)"

definition dispatchQueue :: "('db, 'b) world \<Rightarrow> ('db, 'b) world" where
  "dispatchQueue w = dispatchQueue_loop (mqueue w) w"

definition release :: "('db, 'b) world \<Rightarrow> ('db, 'b) world" where
  "release w = dispatchQueue (w\<lparr>mvalue := mvalue w + 1\<rparr>)"

text \<open>The releaser handed out for call \<open>t\<close>: only its first call releases.\<close>

definition releaser :: "nat \<Rightarrow> ('db, 'b) world \<Rightarrow> ('db, 'b) world" where
  "releaser t w =
     (if t \<in> set (mcalled w) then w
      else release (w\<lparr>mcalled := mcalled w @ [t]\<rparr>))"

section \<open>The queryable\<close>

text \<open>
  \<^verbatim>\<open>throw new DriverAdapterError(convertDriverError(error))\<close>: what is thrown is the
  \<^verbatim>\<open>DriverAdapterError\<close> of the translation, unless \<^verbatim>\<open>convertDriverError\<close> throws
  first; nothing catches that, so what it throws is what leaves the call.
\<close>

definition onError ::
  "('a, 'ty, 'b, 'v, 'w, 'x, 'm) conversion \<Rightarrow> 'x \<Rightarrow> ('x, 'm) thrown" where
  "onError cv e =
     (case convertDriverError cv e of
        Inl x \<Rightarrow> Uncaught x
      | Inr m \<Rightarrow> DriverAdapterError (Mapped m))"

fun nth_opt :: "'a list \<Rightarrow> nat \<Rightarrow> 'a option" where
  "nth_opt [] i = None"
| "nth_opt (x # xs) 0 = Some x"
| "nth_opt (x # xs) (Suc i) = nth_opt xs i"

text \<open>
  \<^verbatim>\<open>query.args.map((arg, i) => mapArg(arg, query.argTypes[i], this.adapterOptions))\<close>:
  the arguments in order, stopping at the first one whose conversion throws.
\<close>

fun mapArgs_from ::
  "('a \<Rightarrow> 'ty option \<Rightarrow> 'o \<Rightarrow> 'x + 'b) \<Rightarrow> 'o \<Rightarrow> 'ty list \<Rightarrow> nat \<Rightarrow> 'a list \<Rightarrow> 'x + 'b list" where
  "mapArgs_from f opts tys i [] = Inr []"
| "mapArgs_from f opts tys i (a # as) =
     (case f a (nth_opt tys i) opts of
        Inl e \<Rightarrow> Inl e
      | Inr b \<Rightarrow>
          (case mapArgs_from f opts tys (Suc i) as of
             Inl e \<Rightarrow> Inl e
           | Inr bs \<Rightarrow> Inr (b # bs)))"

definition mapArgs ::
  "('a, 'ty, 'b, 'v, 'w, 'x, 'm) conversion \<Rightarrow> PrismaNodeSQLiteOptions option \<Rightarrow>
   ('a, 'ty) SqlQuery \<Rightarrow> 'x + 'b list" where
  "mapArgs cv opts query = mapArgs_from (mapArg cv) opts (argTypes query) 0 (args query)"

definition executeIO ::
  "('db, 'b, 'v, 'x) engine \<Rightarrow> ('a, 'ty, 'b, 'v, 'w, 'x, 'm) conversion \<Rightarrow>
   PrismaNodeSQLiteOptions option \<Rightarrow> ('db, 'b) world \<Rightarrow> ('a, 'ty) SqlQuery \<Rightarrow>
   ('db, 'b) world \<times> (('x, 'm) thrown + NodeSQLiteMeta)" where
  "executeIO eng cv opts w query =
     (case mapArgs cv opts query of
        Inl e \<Rightarrow> (w, Inl (onError cv e))
      | Inr bs \<Rightarrow>
          (let w1 = log_call (Prepare (sql query)) w in
           case client_prepare eng (db w1) (sql query) of
             Inl e \<Rightarrow> (w1, Inl (onError cv e))
           | Inr stmt \<Rightarrow>
               (let w2 = log_call (Run (sql query) bs) w1;
                    cfg = \<lparr>returnArrays = False, readBigInts = False\<rparr> in
                case stmt_run eng (db w2) (sql query) cfg bs of
                  (Inl e, db') \<Rightarrow> (w2\<lparr>db := db'\<rparr>, Inl (onError cv e))
                | (Inr result, db') \<Rightarrow>
                    (w2\<lparr>db := db'\<rparr>,
                     Inr \<lparr>changes = Number_of (changes result),
                          lastInsertRowid = lastInsertRowid result\<rparr>))))"

definition executeRaw ::
  "('db, 'b, 'v, 'x) engine \<Rightarrow> ('a, 'ty, 'b, 'v, 'w, 'x, 'm) conversion \<Rightarrow>
   PrismaNodeSQLiteOptions option \<Rightarrow> ('db, 'b) world \<Rightarrow> ('a, 'ty) SqlQuery \<Rightarrow>
   ('db, 'b) world \<times> (('x, 'm) thrown + int)" where
  "executeRaw eng cv opts w query =
     (case executeIO eng cv opts w query of
        (w', Inl err) \<Rightarrow> (w', Inl err)
      | (w', Inr meta) \<Rightarrow> (w', Inr (changes meta)))"

definition performIO ::
  "('db, 'b, 'v, 'x) engine \<Rightarrow> ('a, 'ty, 'b, 'v, 'w, 'x, 'm) conversion \<Rightarrow>
   PrismaNodeSQLiteOptions option \<Rightarrow> ('db, 'b) world \<Rightarrow> ('a, 'ty) SqlQuery \<Rightarrow>
   ('db, 'b) world \<times> (('x, 'm) thrown + 'v NodeSQLiteResultSet)" where
  "performIO eng cv opts w query =
     (case mapArgs cv opts query of
        Inl e \<Rightarrow> (w, Inl (onError cv e))
      | Inr bs \<Rightarrow>
          (let w1 = log_call (Prepare (sql query)) w in
           case client_prepare eng (db w1) (sql query) of
             Inl e \<Rightarrow> (w1, Inl (onError cv e))
           | Inr stmt \<Rightarrow>
               (let cfg = \<lparr>returnArrays = has_setReturnArrays stmt, readBigInts = True\<rparr>;
                    cols = columns stmt in
                if length cols = 0 then
                  (let w2 = log_call (Run (sql query) bs) w1 in
                   case stmt_run eng (db w2) (sql query) cfg bs of
                     (Inl e, db') \<Rightarrow> (w2\<lparr>db := db'\<rparr>, Inl (onError cv e))
                   | (Inr result, db') \<Rightarrow>
                       (w2\<lparr>db := db'\<rparr>,
                        Inr \<lparr>declaredTypes = [], io_columnNames = [], io_values = []\<rparr>))
                else
                  (let w2 = log_call (All (sql query) bs) w1 in
                   case stmt_all eng (db w2) (sql query) cfg bs of
                     (Inl e, db') \<Rightarrow> (w2\<lparr>db := db'\<rparr>, Inl (onError cv e))
                   | (Inr vals, db') \<Rightarrow>
                       (w2\<lparr>db := db'\<rparr>,
                        Inr \<lparr>declaredTypes = map col_type cols,
                             io_columnNames = map col_name cols,
                             io_values = vals\<rparr>)))))"

subsection \<open>Column types of a result\<close>

text \<open>
  Modelled from the spec: the first non-null value of column \<open>j\<close> across the row set,
  in row order (the scan inside \<^verbatim>\<open>getColumnTypes\<close> of \<^verbatim>\<open>./conversion.js\<close>, which is not
  among the sources). A row too short to have the column contributes nothing.
\<close>

fun first_non_null :: "nat \<Rightarrow> 'v option list list \<Rightarrow> 'v option" where
  "first_non_null j [] = None"
| "first_non_null j (r # rs) =
     (case nth_opt r j of
        Some (Some v) \<Rightarrow> Some v
      | _ \<Rightarrow> first_non_null j rs)"

text \<open>
  Modelled from the spec: the type of a column without a usable declared type is inferred
  from the first non-null value observed in that column across the row set, and is
  unknown when every value of the column is null (\<^verbatim>\<open>getColumnTypes\<close> of
  \<^verbatim>\<open>./conversion.js\<close>, which is not among the sources).
\<close>

definition inferred_type ::
  "('a, 'ty, 'b, 'v, 'w, 'x, 'm) conversion \<Rightarrow> 'v option list list \<Rightarrow> nat \<Rightarrow> ColumnType" where
  "inferred_type cv rws j =
     (case first_non_null j rws of
        None \<Rightarrow> CtUnknown
      | Some v \<Rightarrow> inferColumnType cv v)"

text \<open>
  Modelled from the spec: \<^verbatim>\<open>getColumnTypes(declaredTypes, rows)\<close> of \<^verbatim>\<open>./conversion.js\<close>,
  which is not among the sources. One logical type per column, parallel to the declared
  types: the type the declared name stands for when there is one, the inferred type when
  the column has no declared type or the name stands for none.
\<close>

definition getColumnTypes ::
  "('a, 'ty, 'b, 'v, 'w, 'x, 'm) conversion \<Rightarrow> string option list \<Rightarrow> 'v option list list \<Rightarrow>
   ColumnType list" where
  "getColumnTypes cv declared rws =
     map (\<lambda>(j, d).
            case d of
              None \<Rightarrow> inferred_type cv rws j
            | Some name \<Rightarrow>
                (case mapDeclType cv name of
                   Some ct \<Rightarrow> ct
                 | None \<Rightarrow> inferred_type cv rws j))
         (enumerate 0 declared)"

text \<open>\<^verbatim>\<open>rows.map(f)\<close> for an \<open>f\<close> that may throw: in order, stopping at the first throw.\<close>

fun mapRows :: "('r \<Rightarrow> 'x + 'w) \<Rightarrow> 'r list \<Rightarrow> 'x + 'w list" where
  "mapRows f [] = Inr []"
| "mapRows f (r # rs) =
     (case f r of
        Inl e \<Rightarrow> Inl e
      | Inr y \<Rightarrow>
          (case mapRows f rs of
             Inl e \<Rightarrow> Inl e
           | Inr ys \<Rightarrow> Inr (y # ys)))"

text \<open>
  \<^verbatim>\<open>queryRaw\<close> has no handler of its own: what \<^verbatim>\<open>performIO\<close> throws is already
  translated, what \<^verbatim>\<open>mapRow\<close> throws leaves the call as it is.
\<close>

definition queryRaw ::
  "('db, 'b, 'v, 'x) engine \<Rightarrow> ('a, 'ty, 'b, 'v, 'w, 'x, 'm) conversion \<Rightarrow>
   PrismaNodeSQLiteOptions option \<Rightarrow> ('db, 'b) world \<Rightarrow> ('a, 'ty) SqlQuery \<Rightarrow>
   ('db, 'b) world \<times> (('x, 'm) thrown + 'w SqlResultSet)" where
  "queryRaw eng cv opts w query =
     (case performIO eng cv opts w query of
        (w', Inl err) \<Rightarrow> (w', Inl err)
      | (w', Inr rs) \<Rightarrow>
          (let rws = io_values rs;
               cts = getColumnTypes cv (declaredTypes rs) rws in
           case mapRows (\<lambda>row. mapRow cv row cts) rws of
             Inl e \<Rightarrow> (w', Inl (Uncaught e))
           | Inr out \<Rightarrow>
               (w', Inr \<lparr>columnNames = io_columnNames rs, columnTypes = cts, rows = out\<rparr>)))"

section \<open>Transactions\<close>

text \<open>
  A \<^verbatim>\<open>NodeSQLiteTransaction\<close> shares the adapter's client; \<open>unlockParent\<close> is the
  releaser it was constructed with, named by the \<^verbatim>\<open>acquire\<close> call that returned it.
\<close>

record NodeSQLiteTransaction =
  options :: TransactionOptions
  tx_adapterOptions :: "PrismaNodeSQLiteOptions option"
  unlockParent :: nat

definition commit :: "('db, 'b) world \<Rightarrow> NodeSQLiteTransaction \<Rightarrow> ('db, 'b) world" where
  "commit w tx = releaser (unlockParent tx) w"

definition rollback :: "('db, 'b) world \<Rightarrow> NodeSQLiteTransaction \<Rightarrow> ('db, 'b) world" where
  "rollback w tx = releaser (unlockParent tx) w"

text \<open>
  \<^verbatim>\<open>startTransaction\<close> is asynchronous and waits once, for \<^verbatim>\<open>this.#mutex.acquire()\<close>.
  \<open>startTransaction_call\<close> is the part that runs when it is called, up to that wait:
  the test \<^verbatim>\<open>isolationLevel && isolationLevel !== 'SERIALIZABLE'\<close> (an omitted level and
  an empty string are falsy) and the call of \<^verbatim>\<open>acquire\<close>, here with number \<open>t\<close>.
\<close>

definition startTransaction_call ::
  "nat \<Rightarrow> IsolationLevel option \<Rightarrow> ('db, 'b) world \<Rightarrow> ('db, 'b) world \<times> ('x, 'm) thrown option" where
  "startTransaction_call t isolationLevel w =
     (case isolationLevel of
        None \<Rightarrow> (acquire t w, None)
      | Some l \<Rightarrow>
          (if level_literal l \<noteq> [] \<and> level_literal l \<noteq> ''SERIALIZABLE''
           then (w, Some (DriverAdapterError (InvalidIsolationLevel (level_literal l))))
           else (acquire t w, None)))"

text \<open>
  \<open>startTransaction_resume\<close> is the rest, which runs once the promise of call \<open>t\<close> has
  been resolved: \<^verbatim>\<open>this.client.prepare('BEGIN').run()\<close>, then the transaction object;
  whatever is thrown goes through \<^verbatim>\<open>onError\<close>.
\<close>

definition startTransaction_resume ::
  "('db, 'b, 'v, 'x) engine \<Rightarrow> ('a, 'ty, 'b, 'v, 'w, 'x, 'm) conversion \<Rightarrow>
   PrismaNodeSQLiteOptions option \<Rightarrow> nat \<Rightarrow> ('db, 'b) world \<Rightarrow>
   ('db, 'b) world \<times> (('x, 'm) thrown + NodeSQLiteTransaction)" where
  "startTransaction_resume eng cv opts t w =
     (let w1 = log_call (Prepare ''BEGIN'') w in
      case client_prepare eng (db w1) ''BEGIN'' of
        Inl e \<Rightarrow> (w1, Inl (onError cv e))
      | Inr stmt \<Rightarrow>
          (let w2 = log_call (Run ''BEGIN'' []) w1;
               cfg = \<lparr>returnArrays = False, readBigInts = False\<rparr> in
           case stmt_run eng (db w2) ''BEGIN'' cfg [] of
             (Inl e, db') \<Rightarrow> (w2\<lparr>db := db'\<rparr>, Inl (onError cv e))
           | (Inr result, db') \<Rightarrow>
               (w2\<lparr>db := db'\<rparr>,
                Inr \<lparr>options = \<lparr>usePhantomQuery = False\<rparr>,
                     tx_adapterOptions = opts,
                     unlockParent = t\<rparr>)))"

definition executeScript ::
  "('db, 'b, 'v, 'x) engine \<Rightarrow> ('a, 'ty, 'b, 'v, 'w, 'x, 'm) conversion \<Rightarrow>
   ('db, 'b) world \<Rightarrow> string \<Rightarrow> ('db, 'b) world \<times> ('x, 'm) thrown option" where
  "executeScript eng cv w script =
     (let w1 = log_call (Exec script) w in
      case client_exec eng (db w1) script of
        (Some e, db') \<Rightarrow> (w1\<lparr>db := db'\<rparr>, Some (onError cv e))
      | (None, db') \<Rightarrow> (w1\<lparr>db := db'\<rparr>, None))"

subsection \<open>Interleavings of calls on one adapter\<close>

text \<open>
  The handlers of one adapter run one at a time, each to its end or to its wait. An
  interleaving is a list of events: a call of \<^verbatim>\<open>startTransaction\<close> (numbered by the
  caller, each number used once), the resumption of a waiting call whose promise has been
  resolved, \<^verbatim>\<open>commit\<close> or \<^verbatim>\<open>rollback\<close> on the transaction a call returned, and the
  statements of the queryable. \<open>tstate\<close> follows each call through the states of the
  transaction protocol; the code keeps no such field. \<open>txn\<close> holds the transaction
  objects returned so far.
\<close>

datatype tx_state = Idle | Awaiting | Open | Committed | RolledBack | Rejected | BeginFailed

record ('db, 'b) adapter_state =
  wrld :: "('db, 'b) world"
  tstate :: "nat \<Rightarrow> tx_state"
  txn :: "nat \<Rightarrow> NodeSQLiteTransaction option"

datatype ('a, 'ty) event =
  StartTransaction nat "IsolationLevel option"
| Resume nat
| Commit nat
| Rollback nat
| QueryRaw "('a, 'ty) SqlQuery"
| ExecuteRaw "('a, 'ty) SqlQuery"
| ExecuteScript string

definition new_world :: "'db \<Rightarrow> ('db, 'b) world" where
  "new_world d = \<lparr>db = d, sql_log = [], mvalue = 1, mqueue = [], mresolved = [], mcalled = []\<rparr>"

definition new_adapter :: "'db \<Rightarrow> ('db, 'b) adapter_state" where
  "new_adapter d = \<lparr>wrld = new_world d, tstate = (\<lambda>t. Idle), txn = (\<lambda>t. None)\<rparr>"

definition finish :: "tx_state \<Rightarrow> tx_state \<Rightarrow> tx_state" where
  "finish st final = (if st = Open then final else st)"

fun step ::
  "('db, 'b, 'v, 'x) engine \<Rightarrow> ('a, 'ty, 'b, 'v, 'w, 'x, 'm) conversion \<Rightarrow>
   PrismaNodeSQLiteOptions option \<Rightarrow> ('db, 'b) adapter_state \<Rightarrow> ('a, 'ty) event \<Rightarrow>
   ('db, 'b) adapter_state" where
  "step eng cv opts s (StartTransaction t lvl) =
     (if tstate s t \<noteq> Idle then s
      else
        (case (startTransaction_call t lvl (wrld s)
                 :: ('db, 'b) world \<times> ('x, 'm) thrown option) of
           (w', Some err) \<Rightarrow> s\<lparr>wrld := w', tstate := (tstate s)(t := Rejected)\<rparr>
         | (w', None) \<Rightarrow> s\<lparr>wrld := w', tstate := (tstate s)(t := Awaiting)\<rparr>))"
| "step eng cv opts s (Resume t) =
     (if tstate s t = Awaiting \<and> t \<in> set (mresolved (wrld s)) then
        (case startTransaction_resume eng cv opts t (wrld s) of
           (w', Inl err) \<Rightarrow> s\<lparr>wrld := w', tstate := (tstate s)(t := BeginFailed)\<rparr>
         | (w', Inr tx) \<Rightarrow>
             s\<lparr>wrld := w', tstate := (tstate s)(t := Open), txn := (txn s)(t := Some tx)\<rparr>)
      else s)"
| "step eng cv opts s (Commit t) =
     (case txn s t of
        None \<Rightarrow> s
      | Some tx \<Rightarrow>
          s\<lparr>wrld := commit (wrld s) tx,
            tstate := (tstate s)(t := finish (tstate s t) Committed)\<rparr>)"
| "step eng cv opts s (Rollback t) =
     (case txn s t of
        None \<Rightarrow> s
      | Some tx \<Rightarrow>
          s\<lparr>wrld := rollback (wrld s) tx,
            tstate := (tstate s)(t := finish (tstate s t) RolledBack)\<rparr>)"
| "step eng cv opts s (QueryRaw q) = s\<lparr>wrld := fst (queryRaw eng cv opts (wrld s) q)\<rparr>"
| "step eng cv opts s (ExecuteRaw q) = s\<lparr>wrld := fst (executeRaw eng cv opts (wrld s) q)\<rparr>"
| "step eng cv opts s (ExecuteScript script) =
     s\<lparr>wrld := fst (executeScript eng cv (wrld s) script)\<rparr>"

definition run_events ::
  "('db, 'b, 'v, 'x) engine \<Rightarrow> ('a, 'ty, 'b, 'v, 'w, 'x, 'm) conversion \<Rightarrow>
   PrismaNodeSQLiteOptions option \<Rightarrow> ('db, 'b) adapter_state \<Rightarrow> ('a, 'ty) event list \<Rightarrow>
   ('db, 'b) adapter_state" where
  "run_events eng cv opts s es = foldl (step eng cv opts) s es"

subsection \<open>A small client and converter, for concrete runs\<close>

text \<open>
  A client whose database state is "a transaction is active": \<^verbatim>\<open>BEGIN\<close> throws when one
  is, as the engine does. One statement has a result column without a declared type, one
  reports a change count of \<open>2 ^ 32\<close>; every other statement is a write of one row.
  The translator of the converter translates the error of the client and throws back,
  as it is, any other error, such as the one of a failed argument conversion.
\<close>

datatype demo_value = DNumber int | DText string

definition demo_engine :: "(bool, demo_value, demo_value, string) engine" where
  "demo_engine =
     \<lparr>client_prepare = (\<lambda>d s.
        if s = ''SELECT x'' then
          Inr \<lparr>columns = [\<lparr>col_name = ''x'', col_type = None\<rparr>], has_setReturnArrays = True\<rparr>
        else Inr \<lparr>columns = [], has_setReturnArrays = True\<rparr>),
      stmt_run = (\<lambda>d s cfg bs.
        if s = ''BEGIN'' then
          (if d then (Inl ''cannot start a transaction within a transaction'', d)
           else (Inr \<lparr>changes = 0, lastInsertRowid = 0\<rparr>, True))
        else if s = ''COMMIT'' then (Inr \<lparr>changes = 0, lastInsertRowid = 0\<rparr>, False)
        else if s = ''DELETE FROM big'' then
          (Inr \<lparr>changes = 4294967296, lastInsertRowid = 0\<rparr>, d)
        else (Inr \<lparr>changes = 1, lastInsertRowid = 1\<rparr>, d)),
      stmt_all = (\<lambda>d s cfg bs. (Inr [[None], [Some (DNumber 5)], [Some (DText ''x'')]], d)),
      client_exec = (\<lambda>d s. (None, d))\<rparr>"

definition demo_conversion ::
  "(demo_value, unit, demo_value, demo_value, demo_value option list, string, string) conversion" where
  "demo_conversion =
     \<lparr>mapArg = (\<lambda>a ty opts.
        case a of
          DText s \<Rightarrow> (if s = ''bad'' then Inl ''unsupported argument'' else Inr a)
        | DNumber n \<Rightarrow> Inr a),
      mapRow = (\<lambda>r cts. Inr r),
      convertDriverError = (\<lambda>e.
        if e = ''cannot start a transaction within a transaction'' then Inr e else Inl e),
      mapDeclType = (\<lambda>name. if name = ''INTEGER'' then Some CtInt32 else None),
      inferColumnType = (\<lambda>v. case v of DNumber n \<Rightarrow> CtInt32 | DText s \<Rightarrow> CtText)\<rparr>"

definition demo_query :: "string \<Rightarrow> demo_value list \<Rightarrow> (demo_value, unit) SqlQuery" where
  "demo_query s as = \<lparr>sql = s, args = as, argTypes = map (\<lambda>a. ()) as\<rparr>"

definition fits_u32 :: "int \<Rightarrow> bool" where
  "fits_u32 n = (0 \<le> n \<and> n \<le> 2 ^ 32 - 1)"

section \<open>Invariants of the lock\<close>

text \<open>The lock fields of a world: value, queue, resolved calls, called releasers.\<close>

definition lock_of :: "('db, 'b) world \<Rightarrow> int \<times> nat list \<times> nat list \<times> nat list" where
  "lock_of w = (mvalue w, mqueue w, mresolved w, mcalled w)"

text \<open>
  The lock is free and every resolved call has released, or it is taken and exactly one
  resolved call has not released yet; waiting calls are distinct and not resolved.
\<close>

definition mutex_ok :: "int \<times> nat list \<times> nat list \<times> nat list \<Rightarrow> bool" where
  "mutex_ok l \<longleftrightarrow>
     (case l of (v, q, r, c) \<Rightarrow>
       distinct q
     \<and> set q \<inter> set r = {}
     \<and> set c \<subseteq> set r
     \<and> ((v = 1 \<and> set r \<subseteq> set c)
        \<or> (v = 0 \<and> (\<exists>h. h \<in> set r \<and> h \<notin> set c \<and> set r \<subseteq> insert h (set c)))))"

text \<open>How the protocol states of the calls relate to the lock fields.\<close>

definition ts_ok :: "int \<times> nat list \<times> nat list \<times> nat list \<Rightarrow> (nat \<Rightarrow> tx_state) \<Rightarrow> bool" where
  "ts_ok l ts \<longleftrightarrow>
     (case l of (v, q, r, c) \<Rightarrow>
       (\<forall>t. ts t = Idle \<longrightarrow> t \<notin> set q \<and> t \<notin> set r)
     \<and> (\<forall>t. ts t = Open \<longrightarrow> t \<in> set r \<and> t \<notin> set c)
     \<and> (\<forall>t. t \<in> set c \<longleftrightarrow> ts t = Committed \<or> ts t = RolledBack))"

text \<open>A transaction object exists only for a resolved call, and holds that call's releaser.\<close>

definition tx_ok ::
  "int \<times> nat list \<times> nat list \<times> nat list \<Rightarrow> (nat \<Rightarrow> tx_state) \<Rightarrow>
   (nat \<Rightarrow> NodeSQLiteTransaction option) \<Rightarrow> bool" where
  "tx_ok l ts tx \<longleftrightarrow>
     (case l of (v, q, r, c) \<Rightarrow>
       (\<forall>t x. tx t = Some x \<longrightarrow>
           unlockParent x = t \<and> t \<in> set r
           \<and> (ts t = Open \<or> ts t = Committed \<or> ts t = RolledBack)))"

definition lock_inv :: "('db, 'b) adapter_state \<Rightarrow> bool" where
  "lock_inv s \<longleftrightarrow>
     mutex_ok (lock_of (wrld s)) \<and> ts_ok (lock_of (wrld s)) (tstate s)
   \<and> tx_ok (lock_of (wrld s)) (tstate s) (txn s)"

text \<open>
  The lock is taken, no transaction is open, and no waiting call has been resolved:
  nobody is left who could release.
\<close>

definition leaked :: "('db, 'b) adapter_state \<Rightarrow> bool" where
  "leaked s \<longleftrightarrow>
     lock_inv s \<and> mvalue (wrld s) = 0 \<and> (\<forall>t. tstate s t \<noteq> Open)
   \<and> (\<forall>t. tstate s t = Awaiting \<longrightarrow> t \<notin> set (mresolved (wrld s)))"

subsection \<open>Concrete interleavings\<close>

text \<open>
  Two calls of \<^verbatim>\<open>startTransaction\<close> before the first one resumes; then the first
  transaction ends (the caller sends \<^verbatim>\<open>COMMIT\<close> and calls \<^verbatim>\<open>commit\<close>) and the second
  resumes.
\<close>

definition two_calls :: "(demo_value, unit) event list" where
  "two_calls = [StartTransaction 0 None, StartTransaction 1 (Some SERIALIZABLE), Resume 0]"

definition first_commits :: "(demo_value, unit) event list" where
  "first_commits = [ExecuteRaw (demo_query ''COMMIT'' []), Commit 0, Resume 1]"

text \<open>
  A transaction is already active on the connection when \<^verbatim>\<open>startTransaction\<close> is
  called, so its \<^verbatim>\<open>BEGIN\<close> throws; the connection's transaction is ended afterwards and
  \<^verbatim>\<open>startTransaction\<close> is called again.
\<close>

definition leak_trace :: "(demo_value, unit) event list" where
  "leak_trace =
     [ExecuteRaw (demo_query ''BEGIN'' []), StartTransaction 0 None, Resume 0,
      ExecuteRaw (demo_query ''COMMIT'' []), StartTransaction 1 None, Resume 1]"

section \<open>Properties\<close>

subsection \<open>The lock leaves the database alone\<close>

lemma dispatchQueue_loop_frame:
  "db (dispatchQueue_loop q w) = db w \<and> sql_log (dispatchQueue_loop q w) = sql_log w"
  by (induction q arbitrary: w) (simp_all add: dispatchItem_def)

lemma releaser_frame:
  "db (releaser t w) = db w \<and> sql_log (releaser t w) = sql_log w"
  by (simp add: releaser_def release_def dispatchQueue_def dispatchQueue_loop_frame)

lemma acquire_frame:
  "db (acquire t w) = db w \<and> sql_log (acquire t w) = sql_log w"
  by (simp add: acquire_def dispatchItem_def)

text \<open>
  C7. \<^verbatim>\<open>commit\<close> and \<^verbatim>\<open>rollback\<close> only call the releaser: the log of calls to the
  client and the database state are the same before and after. The part of
  \<^verbatim>\<open>startTransaction\<close> before the wait issues nothing, and the part after it issues the
  preparation of \<^verbatim>\<open>BEGIN\<close> and, when that did not throw, its run, and nothing else.
\<close>

theorem commit_rollback_issue_no_sql:
  "sql_log (commit w tx) = sql_log w \<and> db (commit w tx) = db w
   \<and> sql_log (rollback w tx) = sql_log w \<and> db (rollback w tx) = db w
   \<and> commit w tx = releaser (unlockParent tx) w
   \<and> rollback w tx = releaser (unlockParent tx) w
   \<and> sql_log (fst (startTransaction_call t lvl w :: ('db, 'b) world \<times> ('x, 'm) thrown option)) = sql_log w
   \<and> sql_log (fst (startTransaction_resume eng cv opts t w))
        \<in> {sql_log w @ [Prepare ''BEGIN''], sql_log w @ [Prepare ''BEGIN'', Run ''BEGIN'' []]}"
  by (auto simp: commit_def rollback_def releaser_frame startTransaction_call_def acquire_frame
      startTransaction_resume_def log_call_def Let_def split: option.splits sum.splits prod.splits)

subsection \<open>Isolation levels\<close>

text \<open>
  C3. For every isolation level other than \<^verbatim>\<open>SERIALIZABLE\<close>, the call fails with the
  invalid-isolation-level error carrying that level, and the world (database, log of
  client calls, lock) is the one it was called in: nothing was acquired or issued.
\<close>

theorem unsupported_level_rejected:
  assumes "l \<noteq> SERIALIZABLE"
  shows "startTransaction_call t (Some l) w
         = (w, Some (DriverAdapterError (InvalidIsolationLevel (level_literal l))))"
  using assms by (cases l) (simp_all add: startTransaction_call_def)

theorem unsupported_level_rejected_witness:
  "READ_COMMITTED \<noteq> SERIALIZABLE
   \<and> (startTransaction_call 0 (Some READ_COMMITTED) (new_world False :: (bool, demo_value) world)
        :: (bool, demo_value) world \<times> (string, string) thrown option)
       = (new_world False, Some (DriverAdapterError (InvalidIsolationLevel ''READ COMMITTED'')))"
proof -
  have h: "READ_COMMITTED \<noteq> SERIALIZABLE" by simp
  from unsupported_level_rejected[OF h, of 0 "new_world False :: (bool, demo_value) world"]
  show ?thesis by simp
qed

lemma onError_cases:
  "(\<exists>m. onError cv e = DriverAdapterError (Mapped m)) \<or> (\<exists>x. onError cv e = Uncaught x)"
  by (cases "convertDriverError cv e") (simp_all add: onError_def)

lemma resume_error_mapped:
  "snd (startTransaction_resume eng cv opts t w) = Inl err \<Longrightarrow>
     (\<exists>m. err = DriverAdapterError (Mapped m)) \<or> (\<exists>x. err = Uncaught x)"
  using onError_cases[of cv]
  by (auto simp: startTransaction_resume_def Let_def split: sum.splits prod.splits)

lemma resume_begins:
  assumes "client_prepare eng (db w) ''BEGIN'' = Inr stmt"
    and "stmt_run eng (db w) ''BEGIN'' \<lparr>returnArrays = False, readBigInts = False\<rparr> []
           = (Inr meta, d')"
  shows "startTransaction_resume eng cv opts t w
         = (w\<lparr>sql_log := sql_log w @ [Prepare ''BEGIN'', Run ''BEGIN'' []], db := d'\<rparr>,
            Inr \<lparr>options = \<lparr>usePhantomQuery = False\<rparr>, tx_adapterOptions = opts,
                 unlockParent = t\<rparr>)"
  using assms by (simp add: startTransaction_resume_def log_call_def)

lemma start_then_resume:
  fixes eng :: "('db, 'b, 'v, 'x) engine"
    and cv :: "('a, 'ty, 'b, 'v, 'w, 'x, 'm) conversion"
  assumes "lvl = None \<or> lvl = Some SERIALIZABLE"
    and "client_prepare eng d ''BEGIN'' = Inr stmt"
    and "stmt_run eng d ''BEGIN'' \<lparr>returnArrays = False, readBigInts = False\<rparr> []
           = (Inr meta, d')"
  shows "tstate (run_events eng cv opts (new_adapter d) [StartTransaction t lvl, Resume t]) t = Open
       \<and> txn (run_events eng cv opts (new_adapter d) [StartTransaction t lvl, Resume t]) t
           = Some \<lparr>options = \<lparr>usePhantomQuery = False\<rparr>, tx_adapterOptions = opts,
                   unlockParent = t\<rparr>
       \<and> db (wrld (run_events eng cv opts (new_adapter d) [StartTransaction t lvl, Resume t])) = d'
       \<and> sql_log (wrld (run_events eng cv opts (new_adapter d) [StartTransaction t lvl, Resume t]))
           = [Prepare ''BEGIN'', Run ''BEGIN'' []]"
proof -
  let ?w = "(new_world d :: ('db, 'b) world)\<lparr>mvalue := 0, mresolved := [t]\<rparr>"
  have c: "startTransaction_call t lvl (new_world d :: ('db, 'b) world)
             = (?w, (None :: ('x, 'm) thrown option))"
    using assms(1) by (auto simp: startTransaction_call_def acquire_def dispatchItem_def new_world_def)
  have p: "client_prepare eng (db ?w) ''BEGIN'' = Inr stmt"
    and r: "stmt_run eng (db ?w) ''BEGIN'' \<lparr>returnArrays = False, readBigInts = False\<rparr> []
              = (Inr meta, d')"
    using assms(2,3) by (simp_all add: new_world_def)
  note b = resume_begins[OF p r, of cv opts t]
  show ?thesis
    by (simp add: run_events_def new_adapter_def c b) (simp add: new_world_def)
qed

text \<open>
  C10. The call raises the invalid-isolation-level error exactly when a level other than
  \<^verbatim>\<open>SERIALIZABLE\<close> is supplied. With no level, or with \<^verbatim>\<open>SERIALIZABLE\<close>, it raises
  nothing and goes on to acquire the lock, which is granted at once when the lock is
  free. The resumed call never throws the invalid-isolation-level error, and when the
  preparation and the run of \<^verbatim>\<open>BEGIN\<close> do not throw it issues exactly these two and
  returns the transaction holding the releaser of this call. On a new adapter the call
  and its resumption thus leave the transaction open.
\<close>

theorem isolation_error_exactly_when:
  "((\<exists>lit. snd (startTransaction_call t lvl w :: ('db, 'b) world \<times> ('x, 'm) thrown option)
             = Some (DriverAdapterError (InvalidIsolationLevel lit)))
      \<longleftrightarrow> (\<exists>l. lvl = Some l \<and> l \<noteq> SERIALIZABLE))
   \<and> (lvl = None \<or> lvl = Some SERIALIZABLE \<longrightarrow>
        (startTransaction_call t lvl w :: ('db, 'b) world \<times> ('x, 'm) thrown option) = (acquire t w, None)
        \<and> (mqueue w = [] \<and> 1 \<le> mvalue w \<longrightarrow> t \<in> set (mresolved (acquire t w))))
   \<and> snd (startTransaction_resume eng cv opts t w) \<noteq> Inl (DriverAdapterError (InvalidIsolationLevel lit'))
   \<and> (client_prepare eng (db w) ''BEGIN'' = Inr stmt
        \<and> stmt_run eng (db w) ''BEGIN'' \<lparr>returnArrays = False, readBigInts = False\<rparr> []
            = (Inr meta, d')
      \<longrightarrow> startTransaction_resume eng cv opts t w
            = (w\<lparr>sql_log := sql_log w @ [Prepare ''BEGIN'', Run ''BEGIN'' []], db := d'\<rparr>,
               Inr \<lparr>options = \<lparr>usePhantomQuery = False\<rparr>, tx_adapterOptions = opts,
                    unlockParent = t\<rparr>))
   \<and> ((lvl = None \<or> lvl = Some SERIALIZABLE)
        \<and> client_prepare eng (db w) ''BEGIN'' = Inr stmt
        \<and> stmt_run eng (db w) ''BEGIN'' \<lparr>returnArrays = False, readBigInts = False\<rparr> []
            = (Inr meta, d')
      \<longrightarrow> tstate (run_events eng cv opts (new_adapter (db w)) [StartTransaction t lvl, Resume t]) t
            = Open
          \<and> txn (run_events eng cv opts (new_adapter (db w)) [StartTransaction t lvl, Resume t]) t
            = Some \<lparr>options = \<lparr>usePhantomQuery = False\<rparr>, tx_adapterOptions = opts,
                    unlockParent = t\<rparr>)"
proof -
  have a: "lvl = None \<or> lvl = Some SERIALIZABLE \<Longrightarrow>
        (startTransaction_call t lvl w :: ('db, 'b) world \<times> ('x, 'm) thrown option) = (acquire t w, None)"
    by (auto simp: startTransaction_call_def)
  have g: "mqueue w = [] \<and> 1 \<le> mvalue w \<longrightarrow> t \<in> set (mresolved (acquire t w))"
    by (simp add: acquire_def dispatchItem_def)
  have b: "lvl = Some l \<Longrightarrow> l \<noteq> SERIALIZABLE \<Longrightarrow>
      snd (startTransaction_call t lvl w :: ('db, 'b) world \<times> ('x, 'm) thrown option)
             = Some (DriverAdapterError (InvalidIsolationLevel (level_literal l)))" for l
    by (cases l) (simp_all add: startTransaction_call_def)
  have c: "snd (startTransaction_resume eng cv opts t w) \<noteq> Inl (DriverAdapterError (InvalidIsolationLevel lit'))"
    using resume_error_mapped[of eng cv opts t w] by fastforce
  have d: "client_prepare eng (db w) ''BEGIN'' = Inr stmt
        \<and> stmt_run eng (db w) ''BEGIN'' \<lparr>returnArrays = False, readBigInts = False\<rparr> []
            = (Inr meta, d')
      \<longrightarrow> startTransaction_resume eng cv opts t w
            = (w\<lparr>sql_log := sql_log w @ [Prepare ''BEGIN'', Run ''BEGIN'' []], db := d'\<rparr>,
               Inr \<lparr>options = \<lparr>usePhantomQuery = False\<rparr>, tx_adapterOptions = opts,
                    unlockParent = t\<rparr>)"
    using resume_begins[of eng w stmt meta d' cv opts t] by blast
  have e: "(lvl = None \<or> lvl = Some SERIALIZABLE)
        \<and> client_prepare eng (db w) ''BEGIN'' = Inr stmt
        \<and> stmt_run eng (db w) ''BEGIN'' \<lparr>returnArrays = False, readBigInts = False\<rparr> []
            = (Inr meta, d')
      \<longrightarrow> tstate (run_events eng cv opts (new_adapter (db w)) [StartTransaction t lvl, Resume t]) t
            = Open
          \<and> txn (run_events eng cv opts (new_adapter (db w)) [StartTransaction t lvl, Resume t]) t
            = Some \<lparr>options = \<lparr>usePhantomQuery = False\<rparr>, tx_adapterOptions = opts,
                    unlockParent = t\<rparr>"
    using start_then_resume[of lvl eng "db w" stmt meta d' cv opts t] by blast
  have i: "(\<exists>lit. snd (startTransaction_call t lvl w :: ('db, 'b) world \<times> ('x, 'm) thrown option)
             = Some (DriverAdapterError (InvalidIsolationLevel lit)))
      \<longleftrightarrow> (\<exists>l. lvl = Some l \<and> l \<noteq> SERIALIZABLE)"
  proof (cases lvl)
    case None
    then show ?thesis using a by simp
  next
    case (Some l)
    show ?thesis
    proof (cases "l = SERIALIZABLE")
      case True
      then show ?thesis using a Some by simp
    next
      case False
      then show ?thesis using b[of l] Some by simp
    qed
  qed
  from i a g c d e show ?thesis by blast
qed

theorem isolation_error_exactly_when_witness:
  "(startTransaction_call 0 None (new_world False :: (bool, demo_value) world)
      :: (bool, demo_value) world \<times> (string, string) thrown option)
     = (acquire 0 (new_world False), None)
   \<and> (startTransaction_call 0 (Some SERIALIZABLE) (new_world False :: (bool, demo_value) world)
      :: (bool, demo_value) world \<times> (string, string) thrown option)
     = (acquire 0 (new_world False), None)
   \<and> (\<exists>lit. snd (startTransaction_call 0 (Some SNAPSHOT) (new_world False :: (bool, demo_value) world)
                  :: (bool, demo_value) world \<times> (string, string) thrown option)
            = Some (DriverAdapterError (InvalidIsolationLevel lit)))
   \<and> 0 \<in> set (mresolved (acquire 0 (new_world False :: (bool, demo_value) world)))
   \<and> tstate (run_events demo_engine demo_conversion None (new_adapter False)
               [StartTransaction 0 None, Resume 0]) 0 = Open
   \<and> tstate (run_events demo_engine demo_conversion None (new_adapter False)
               [StartTransaction 0 (Some SERIALIZABLE), Resume 0]) 0 = Open"
proof -
  have p: "client_prepare demo_engine (db (new_world False :: (bool, demo_value) world)) ''BEGIN''
             = Inr \<lparr>columns = [], has_setReturnArrays = True\<rparr>"
    by (simp add: demo_engine_def new_world_def)
  have r: "stmt_run demo_engine (db (new_world False :: (bool, demo_value) world)) ''BEGIN''
             \<lparr>returnArrays = False, readBigInts = False\<rparr> []
           = (Inr \<lparr>changes = 0, lastInsertRowid = 0\<rparr>, True)"
    by (simp add: demo_engine_def new_world_def)
  have f: "mqueue (new_world False :: (bool, demo_value) world) = []
           \<and> 1 \<le> mvalue (new_world False :: (bool, demo_value) world)"
    by (simp add: new_world_def)
  have n: "db (new_world False :: (bool, demo_value) world) = False"
    by (simp add: new_world_def)
  from isolation_error_exactly_when[where ?'x = string and ?'m = string
          and t = 0 and lvl = None and w = "new_world False :: (bool, demo_value) world"
          and eng = demo_engine and cv = demo_conversion and opts = None
          and stmt = "\<lparr>columns = [], has_setReturnArrays = True\<rparr>"
          and meta = "\<lparr>changes = 0, lastInsertRowid = 0\<rparr>" and d' = True]
       isolation_error_exactly_when[where ?'x = string and ?'m = string
          and t = 0 and lvl = "Some SERIALIZABLE"
          and w = "new_world False :: (bool, demo_value) world"
          and eng = demo_engine and cv = demo_conversion and opts = None
          and stmt = "\<lparr>columns = [], has_setReturnArrays = True\<rparr>"
          and meta = "\<lparr>changes = 0, lastInsertRowid = 0\<rparr>" and d' = True]
       isolation_error_exactly_when[where ?'x = string and ?'m = string
          and t = 0 and lvl = "Some SNAPSHOT"
          and w = "new_world False :: (bool, demo_value) world"
          and eng = demo_engine and cv = demo_conversion and opts = None]
       p r f
  show ?thesis unfolding n by simp
qed

subsection \<open>Arguments are converted first\<close>








subsection \<open>Statements without result columns\<close>

text \<open>
  C8. When the arguments convert, the statement prepares with no result columns and its
  run does not throw, \<^verbatim>\<open>queryRaw\<close> returns the empty result set (no column names, no
  column types, no rows), having prepared and run the statement.
\<close>

theorem pure_write_query_is_empty:
  assumes "mapArgs cv opts query = Inr bs"
    and "client_prepare eng (db w) (sql query) = Inr stmt"
    and "columns stmt = []"
    and "stmt_run eng (db w) (sql query)
           \<lparr>returnArrays = has_setReturnArrays stmt, readBigInts = True\<rparr> bs = (Inr meta, d')"
  shows "queryRaw eng cv opts w query
         = (w\<lparr>sql_log := sql_log w @ [Prepare (sql query), Run (sql query) bs], db := d'\<rparr>,
            Inr \<lparr>columnNames = [], columnTypes = [], rows = []\<rparr>)"
  using assms
  by (simp add: queryRaw_def performIO_def log_call_def Let_def getColumnTypes_def enumerate_eq_zip)

theorem pure_write_query_is_empty_witness:
  "queryRaw demo_engine demo_conversion None (new_world False) (demo_query ''INSERT'' [DNumber 1])
    = ((new_world False)\<lparr>sql_log := [Prepare ''INSERT'', Run ''INSERT'' [DNumber 1]], db := False\<rparr>,
       Inr \<lparr>columnNames = [], columnTypes = [], rows = []\<rparr>)"
proof -
  have a: "mapArgs demo_conversion None (demo_query ''INSERT'' [DNumber 1]) = Inr [DNumber 1]"
    by (simp add: mapArgs_def demo_query_def demo_conversion_def)
  have b: "client_prepare demo_engine (db (new_world False :: (bool, demo_value) world))
             (sql (demo_query ''INSERT'' [DNumber 1]))
           = Inr \<lparr>columns = [], has_setReturnArrays = True\<rparr>"
    by (simp add: demo_engine_def demo_query_def)
  have c: "columns \<lparr>columns = [], has_setReturnArrays = True\<rparr> = []" by simp
  have d: "stmt_run demo_engine (db (new_world False :: (bool, demo_value) world))
             (sql (demo_query ''INSERT'' [DNumber 1]))
           \<lparr>returnArrays = has_setReturnArrays \<lparr>columns = [], has_setReturnArrays = True\<rparr>,
             readBigInts = True\<rparr> [DNumber 1]
           = (Inr \<lparr>changes = 1, lastInsertRowid = 1\<rparr>, False)"
    by (simp add: demo_engine_def demo_query_def new_world_def)
  from pure_write_query_is_empty[OF a b c d]
  show ?thesis by (simp add: new_world_def demo_query_def)
qed

subsection \<open>The affected-row count\<close>

text \<open>
  C6, as claimed: the count returned by \<^verbatim>\<open>executeRaw\<close> always fits 32 unsigned bits.
  It does not: when the client reports \<open>2 ^ 32\<close> changed rows, that is what is returned.
\<close>

theorem executeRaw_exceeds_u32:
  "snd (executeRaw demo_engine demo_conversion None (new_world False) (demo_query ''DELETE FROM big'' []))
     = Inr 4294967296
   \<and> \<not> fits_u32 4294967296"
  by (simp add: executeRaw_def executeIO_def mapArgs_def demo_query_def demo_conversion_def
      demo_engine_def new_world_def log_call_def Number_of_def fits_u32_def)

text \<open>
  C6, amended. \<^verbatim>\<open>executeRaw\<close> returns only the count of rows changed, and it is the
  count the client reported for the run of the statement, unchanged: it fits 32 unsigned
  bits exactly when the reported count does.
\<close>

theorem executeRaw_returns_engine_count:
  assumes "executeRaw eng cv opts w query = (w', Inr n)"
  shows "\<exists>bs stmt meta d'.
           mapArgs cv opts query = Inr bs
         \<and> client_prepare eng (db w) (sql query) = Inr stmt
         \<and> stmt_run eng (db w) (sql query) \<lparr>returnArrays = False, readBigInts = False\<rparr> bs
             = (Inr meta, d')
         \<and> n = changes meta
         \<and> (fits_u32 n \<longleftrightarrow> fits_u32 (changes meta))
         \<and> w' = w\<lparr>sql_log := sql_log w @ [Prepare (sql query), Run (sql query) bs], db := d'\<rparr>"
  using assms
  by (auto simp: executeRaw_def executeIO_def log_call_def Let_def Number_of_def
      split: sum.splits prod.splits)

theorem executeRaw_returns_engine_count_witness:
  "\<exists>bs stmt meta d'.
      stmt_run demo_engine False ''UPDATE t'' \<lparr>returnArrays = False, readBigInts = False\<rparr> bs
             = (Inr meta, d')
      \<and> (1::int) = changes meta"
proof -
  have h: "executeRaw demo_engine demo_conversion None (new_world False) (demo_query ''UPDATE t'' [])
           = ((new_world False)\<lparr>sql_log := [Prepare ''UPDATE t'', Run ''UPDATE t'' []]\<rparr>, Inr 1)"
    by (simp add: executeRaw_def executeIO_def mapArgs_def demo_query_def demo_conversion_def
      demo_engine_def new_world_def log_call_def Number_of_def)
  from executeRaw_returns_engine_count[OF h]
  show ?thesis by (simp add: demo_query_def new_world_def) blast
qed

subsection \<open>Column types\<close>

lemma mapRows_Inr: "mapRows f rs = Inr ys \<Longrightarrow> map f rs = map Inr ys"
  by (induction rs arbitrary: ys) (auto split: sum.splits)

lemma mapRows_Inl: "mapRows f rs = Inl e \<Longrightarrow> \<exists>r \<in> set rs. f r = Inl e"
  by (induction rs) (auto split: sum.splits)

lemma getColumnTypes_length: "length (getColumnTypes cv declared rws) = length declared"
  by (simp add: getColumnTypes_def)

lemma getColumnTypes_undeclared:
  "j < length declared \<Longrightarrow> declared ! j = None \<Longrightarrow>
     getColumnTypes cv declared rws ! j
       = (case first_non_null j rws of None \<Rightarrow> CtUnknown | Some v \<Rightarrow> inferColumnType cv v)"
  by (simp add: getColumnTypes_def inferred_type_def nth_enumerate_eq)

text \<open>
  C4. For a result of \<^verbatim>\<open>performIO\<close>, \<^verbatim>\<open>queryRaw\<close> computes one list of column types;
  a column without a declared type gets the type inferred from the first non-null value
  of that column across the rows, or unknown when there is none. Every row is converted
  with that same list: either the result holds the conversion of every row under it, or
  the conversion of some row under it threw and the whole call throws.
\<close>

theorem inferred_type_from_first_non_null:
  assumes "performIO eng cv opts w query = (w', Inr rs)"
  shows "\<exists>cts. length cts = length (declaredTypes rs)
          \<and> (\<forall>j < length (declaredTypes rs). declaredTypes rs ! j = None \<longrightarrow>
                cts ! j = (case first_non_null j (io_values rs) of
                             None \<Rightarrow> CtUnknown
                           | Some v \<Rightarrow> inferColumnType cv v))
          \<and> ((\<exists>out. queryRaw eng cv opts w query
                       = (w', Inr \<lparr>columnNames = io_columnNames rs, columnTypes = cts, rows = out\<rparr>)
                    \<and> map Inr out = map (\<lambda>row. mapRow cv row cts) (io_values rs))
              \<or> (\<exists>e. queryRaw eng cv opts w query = (w', Inl (Uncaught e))
                    \<and> (\<exists>row \<in> set (io_values rs). mapRow cv row cts = Inl e)))"
proof -
  let ?cts = "getColumnTypes cv (declaredTypes rs) (io_values rs)"
  have len: "length ?cts = length (declaredTypes rs)" by (rule getColumnTypes_length)
  have und: "\<forall>j < length (declaredTypes rs). declaredTypes rs ! j = None \<longrightarrow>
                ?cts ! j = (case first_non_null j (io_values rs) of
                             None \<Rightarrow> CtUnknown
                           | Some v \<Rightarrow> inferColumnType cv v)"
    by (simp add: getColumnTypes_undeclared)
  have res: "(\<exists>out. queryRaw eng cv opts w query
                       = (w', Inr \<lparr>columnNames = io_columnNames rs, columnTypes = ?cts, rows = out\<rparr>)
                    \<and> map Inr out = map (\<lambda>row. mapRow cv row ?cts) (io_values rs))
              \<or> (\<exists>e. queryRaw eng cv opts w query = (w', Inl (Uncaught e))
                    \<and> (\<exists>row \<in> set (io_values rs). mapRow cv row ?cts = Inl e))"
  proof (cases "mapRows (\<lambda>row. mapRow cv row ?cts) (io_values rs)")
    case (Inl e)
    from mapRows_Inl[OF Inl] have "\<exists>row \<in> set (io_values rs). mapRow cv row ?cts = Inl e" .
    moreover have "queryRaw eng cv opts w query = (w', Inl (Uncaught e))"
      using assms Inl by (simp add: queryRaw_def Let_def)
    ultimately show ?thesis by blast
  next
    case (Inr out)
    from mapRows_Inr[OF Inr] have "map Inr out = map (\<lambda>row. mapRow cv row ?cts) (io_values rs)"
      by simp
    moreover have "queryRaw eng cv opts w query
                       = (w', Inr \<lparr>columnNames = io_columnNames rs, columnTypes = ?cts, rows = out\<rparr>)"
      using assms Inr by (simp add: queryRaw_def Let_def)
    ultimately show ?thesis by blast
  qed
  from len und res show ?thesis by blast
qed

lemma demo_performIO:
  "performIO demo_engine demo_conversion None (new_world False) (demo_query ''SELECT x'' [])
           = ((new_world False)\<lparr>sql_log := [Prepare ''SELECT x'', All ''SELECT x'' []]\<rparr>,
              Inr \<lparr>declaredTypes = [None], io_columnNames = [''x''],
                   io_values = [[None], [Some (DNumber 5)], [Some (DText ''x'')]]\<rparr>)"
    by (simp add: performIO_def mapArgs_def demo_query_def demo_conversion_def
      demo_engine_def new_world_def log_call_def)

theorem inferred_type_from_first_non_null_witness:
  "queryRaw demo_engine demo_conversion None (new_world False) (demo_query ''SELECT x'' [])
    = ((new_world False)\<lparr>sql_log := [Prepare ''SELECT x'', All ''SELECT x'' []]\<rparr>,
       Inr \<lparr>columnNames = [''x''], columnTypes = [CtInt32],
            rows = [[None], [Some (DNumber 5)], [Some (DText ''x'')]]\<rparr>)"
proof -
  from inferred_type_from_first_non_null[OF demo_performIO]
  obtain cts where l: "length cts = 1"
    and t: "cts ! 0 = CtInt32"
    and r: "(\<exists>out. queryRaw demo_engine demo_conversion None (new_world False) (demo_query ''SELECT x'' [])
                = ((new_world False)\<lparr>sql_log := [Prepare ''SELECT x'', All ''SELECT x'' []]\<rparr>,
                   Inr \<lparr>columnNames = [''x''], columnTypes = cts, rows = out\<rparr>)
              \<and> map Inr out = map (\<lambda>row. mapRow demo_conversion row cts)
                     [[None], [Some (DNumber 5)], [Some (DText ''x'')]])
          \<or> (\<exists>e. queryRaw demo_engine demo_conversion None (new_world False) (demo_query ''SELECT x'' [])
                = ((new_world False)\<lparr>sql_log := [Prepare ''SELECT x'', All ''SELECT x'' []]\<rparr>, Inl (Uncaught e))
              \<and> (\<exists>row \<in> set [[None], [Some (DNumber 5)], [Some (DText ''x'')]]. mapRow demo_conversion row cts = Inl e))"
    by (auto simp: demo_conversion_def)
  from l t have c: "cts = [CtInt32]" by (cases cts) simp_all
  from r show ?thesis unfolding c
    by (auto simp: demo_conversion_def)
qed

subsection \<open>Mutual exclusion\<close>

lemma dispatchQueue_loop_locked:
  "mvalue w < 1 \<Longrightarrow> dispatchQueue_loop q w = w\<lparr>mqueue := q\<rparr>"
  by (cases q) simp_all

lemma releaser_called: "t \<in> set (mcalled w) \<Longrightarrow> releaser t w = w"
  by (simp add: releaser_def)

lemma releaser_idle:
  assumes "t \<notin> set (mcalled w)" "mvalue w = 0" "mqueue w = []"
  shows "lock_of (releaser t w) = (1, [], mresolved w, mcalled w @ [t])"
  using assms by (simp add: releaser_def release_def dispatchQueue_def lock_of_def)

lemma releaser_handover:
  assumes "t \<notin> set (mcalled w)" "mvalue w = 0" "mqueue w = h # q"
  shows "lock_of (releaser t w) = (0, q, mresolved w @ [h], mcalled w @ [t])"
  using assms
  by (simp add: releaser_def release_def dispatchQueue_def lock_of_def dispatchItem_def
      dispatchQueue_loop_locked)

lemma acquire_free:
  "mqueue w = [] \<Longrightarrow> 1 \<le> mvalue w \<Longrightarrow>
     lock_of (acquire t w) = (mvalue w - 1, [], mresolved w @ [t], mcalled w)"
  by (simp add: acquire_def dispatchItem_def lock_of_def)

lemma acquire_busy:
  "\<not> (mqueue w = [] \<and> 1 \<le> mvalue w) \<Longrightarrow>
     lock_of (acquire t w) = (mvalue w, mqueue w @ [t], mresolved w, mcalled w)"
  by (auto simp add: acquire_def lock_of_def)

lemma resume_lock: "lock_of (fst (startTransaction_resume eng cv opts t w)) = lock_of w"
  by (auto simp: startTransaction_resume_def lock_of_def log_call_def Let_def
      split: sum.splits prod.splits)

lemma resume_tx:
  "startTransaction_resume eng cv opts t w = (w', Inr tx) \<Longrightarrow> unlockParent tx = t"
  by (auto simp: startTransaction_resume_def Let_def split: sum.splits prod.splits)

lemma performIO_lock: "lock_of (fst (performIO eng cv opts w q)) = lock_of w"
  by (auto simp: performIO_def lock_of_def log_call_def Let_def
      split: sum.splits prod.splits)

lemma queryRaw_lock: "lock_of (fst (queryRaw eng cv opts w q)) = lock_of w"
  using performIO_lock[of eng cv opts w q]
  by (auto simp: queryRaw_def Let_def split: sum.splits prod.splits)

lemma executeIO_lock: "lock_of (fst (executeIO eng cv opts w q)) = lock_of w"
  by (auto simp: executeIO_def lock_of_def log_call_def Let_def
      split: sum.splits prod.splits)

lemma executeRaw_lock: "lock_of (fst (executeRaw eng cv opts w q)) = lock_of w"
  using executeIO_lock[of eng cv opts w q]
  by (auto simp: executeRaw_def split: sum.splits prod.splits)

lemma executeScript_lock: "lock_of (fst (executeScript eng cv w script)) = lock_of w"
  by (auto simp: executeScript_def lock_of_def log_call_def Let_def
      split: option.splits prod.splits)

lemma tx_okD:
  "tx_ok (v, q, r, c) ts tx \<Longrightarrow> tx t = Some x \<Longrightarrow>
     unlockParent x = t \<and> t \<in> set r \<and> (ts t = Open \<or> ts t = Committed \<or> ts t = RolledBack)"
  unfolding tx_ok_def by simp

lemma tx_none:
  "tx_ok (v, q, r, c) ts tx \<Longrightarrow> ts t = Idle \<or> ts t = Awaiting \<Longrightarrow> tx t = None"
  using tx_okD[of v q r c ts tx t] by (cases "tx t") auto

lemma tx_holder_open:
  "tx_ok (v, q, r, c) ts tx \<Longrightarrow> ts_ok (v, q, r, c) ts \<Longrightarrow> tx t = Some x \<Longrightarrow> t \<notin> set c \<Longrightarrow>
     ts t = Open \<and> t \<in> set r"
  using tx_okD[of v q r c ts tx t x] unfolding ts_ok_def by auto

lemma tx_called_finish:
  "ts_ok (v, q, r, c) ts \<Longrightarrow> t \<in> set c \<Longrightarrow> ts(t := finish (ts t) final) = ts"
  unfolding ts_ok_def finish_def by auto

lemma sole_holder:
  assumes "mutex_ok (v, q, r, c)" and "t \<in> set r" and "t \<notin> set c"
  shows "v = 0 \<and> set r \<subseteq> insert t (set c)"
proof -
  from assms(1) have "(v = 1 \<and> set r \<subseteq> set c)
        \<or> (v = 0 \<and> (\<exists>h. h \<in> set r \<and> h \<notin> set c \<and> set r \<subseteq> insert h (set c)))"
    unfolding mutex_ok_def by simp
  then show ?thesis
  proof
    assume "v = 1 \<and> set r \<subseteq> set c"
    with assms(2,3) show ?thesis by blast
  next
    assume "v = 0 \<and> (\<exists>h. h \<in> set r \<and> h \<notin> set c \<and> set r \<subseteq> insert h (set c))"
    then obtain h where v: "v = 0" and h: "h \<in> set r" "h \<notin> set c" "set r \<subseteq> insert h (set c)"
      by blast
    from h(3) assms(2,3) have "t = h" by blast
    with v h(3) show ?thesis by simp
  qed
qed

lemma no_holder:
  assumes "mutex_ok (v, q, r, c)" and "1 \<le> v"
  shows "v = 1 \<and> set r \<subseteq> set c"
proof -
  from assms(1) have "(v = 1 \<and> set r \<subseteq> set c)
        \<or> (v = 0 \<and> (\<exists>h. h \<in> set r \<and> h \<notin> set c \<and> set r \<subseteq> insert h (set c)))"
    unfolding mutex_ok_def by simp
  with assms(2) show ?thesis by linarith
qed

lemma ts_ok_leave:
  "ts_ok (v, q, r, c) ts \<Longrightarrow> ts t = Idle \<or> ts t = Awaiting \<Longrightarrow> st = Rejected \<or> st = BeginFailed \<Longrightarrow>
     ts_ok (v, q, r, c) (ts(t := st))"
  unfolding ts_ok_def by auto

lemma tx_ok_leave:
  assumes "tx_ok (v, q, r, c) ts tx" and "ts t = Idle \<or> ts t = Awaiting"
  shows "tx_ok (v', q', r @ r', c') (ts(t := st)) tx"
proof -
  have n: "tx t = None" using tx_none[OF assms] .
  show ?thesis using assms(1) n unfolding tx_ok_def by auto
qed

lemma ts_ok_open:
  "ts_ok (v, q, r, c) ts \<Longrightarrow> ts t = Awaiting \<Longrightarrow> t \<in> set r \<Longrightarrow>
     ts_ok (v, q, r, c) (ts(t := Open))"
  unfolding ts_ok_def by auto

lemma tx_ok_open:
  assumes "tx_ok (v, q, r, c) ts tx" and "t \<in> set r" and "unlockParent x = t"
  shows "tx_ok (v, q, r, c) (ts(t := Open)) (tx(t := Some x))"
  using assms unfolding tx_ok_def by auto

lemma mutex_ok_acquire_free:
  assumes "mutex_ok (v, [], r, c)" and "1 \<le> v" and "t \<notin> set r"
  shows "mutex_ok (v - 1, [], r @ [t], c)"
proof -
  from no_holder[OF assms(1,2)] have v: "v = 1" and rc: "set r \<subseteq> set c" by simp_all
  from assms(1) have cr: "set c \<subseteq> set r" unfolding mutex_ok_def by simp
  from cr assms(3) have tc: "t \<notin> set c" by blast
  have h: "t \<in> set (r @ [t]) \<and> t \<notin> set c \<and> set (r @ [t]) \<subseteq> insert t (set c)"
    using tc rc by auto
  have c2: "set c \<subseteq> set (r @ [t])" using cr by auto
  from h have e: "\<exists>h. h \<in> set (r @ [t]) \<and> h \<notin> set c \<and> set (r @ [t]) \<subseteq> insert h (set c)"
    by blast
  show ?thesis unfolding mutex_ok_def using v e c2 by simp
qed

lemma ts_ok_acquire:
  "ts_ok (v, q, r, c) ts \<Longrightarrow> ts t = Idle \<Longrightarrow> set q' \<subseteq> {t} \<Longrightarrow> set r' \<subseteq> {t} \<Longrightarrow>
     ts_ok (v', q @ q', r @ r', c) (ts(t := Awaiting))"
  unfolding ts_ok_def by auto

lemma mutex_ok_acquire_busy:
  assumes "mutex_ok (v, q, r, c)" and "t \<notin> set q" and "t \<notin> set r"
  shows "mutex_ok (v, q @ [t], r, c)"
proof -
  from assms(1) have d: "distinct q" and i: "set q \<inter> set r = {}" and cr: "set c \<subseteq> set r"
    and hv: "(v = 1 \<and> set r \<subseteq> set c)
        \<or> (v = 0 \<and> (\<exists>h. h \<in> set r \<and> h \<notin> set c \<and> set r \<subseteq> insert h (set c)))"
    unfolding mutex_ok_def by simp_all
  have d2: "distinct (q @ [t])" using d assms(2) by simp
  have i2: "set (q @ [t]) \<inter> set r = {}" using i assms(3) by simp
  show ?thesis unfolding mutex_ok_def using d2 i2 cr hv by simp
qed

lemma ts_idle_fresh:
  "ts_ok (v, q, r, c) ts \<Longrightarrow> ts t = Idle \<Longrightarrow> t \<notin> set q \<and> t \<notin> set r"
  unfolding ts_ok_def by auto

lemma mutex_ok_release_idle:
  assumes "mutex_ok (v, [], r, c)" and "t \<in> set r" and "t \<notin> set c"
  shows "mutex_ok (1, [], r, c @ [t])"
proof -
  from sole_holder[OF assms] have s: "set r \<subseteq> insert t (set c)" by simp
  from assms(1) have cr: "set c \<subseteq> set r" unfolding mutex_ok_def by simp
  have a: "set (c @ [t]) \<subseteq> set r" using cr assms(2) by simp
  have b: "set r \<subseteq> set (c @ [t])" using s by auto
  show ?thesis unfolding mutex_ok_def using a b by simp
qed

lemma ts_ok_release_idle:
  assumes "mutex_ok (v, q, r, c)" and "ts_ok (v, q, r, c) ts" and "ts t = Open"
    and "final = Committed \<or> final = RolledBack"
  shows "ts_ok (1, [], r, c @ [t]) (ts(t := finish (ts t) final))"
  using assms(2-) unfolding ts_ok_def finish_def by auto

lemma tx_ok_release:
  assumes "tx_ok (v, q, r, c) ts tx" and "ts t = Open"
    and "final = Committed \<or> final = RolledBack"
  shows "tx_ok (v', q', r @ r', c') (ts(t := finish (ts t) final)) tx"
  using assms unfolding tx_ok_def finish_def by auto

lemma mutex_ok_release_handover:
  assumes "mutex_ok (v, h # q, r, c)" and "t \<in> set r" and "t \<notin> set c"
  shows "mutex_ok (0, q, r @ [h], c @ [t])"
proof -
  from sole_holder[OF assms] have s: "set r \<subseteq> insert t (set c)" by simp
  from assms(1) have d: "distinct (h # q)" and i: "set (h # q) \<inter> set r = {}"
    and cr: "set c \<subseteq> set r"
    unfolding mutex_ok_def by simp_all
  from d have d2: "distinct q" and hq: "h \<notin> set q" by simp_all
  from i have hr: "h \<notin> set r" and i0: "set q \<inter> set r = {}" by auto
  from hr cr assms(2) have hc: "h \<notin> set (c @ [t])" by auto
  have i2: "set q \<inter> set (r @ [h]) = {}" using i0 hq by auto
  have a: "set (c @ [t]) \<subseteq> set (r @ [h])" using cr assms(2) by auto
  have b: "set (r @ [h]) \<subseteq> insert h (set (c @ [t]))" using s by auto
  have e: "h \<in> set (r @ [h])" by simp
  show ?thesis unfolding mutex_ok_def using d2 i2 a b e hc by blast
qed

lemma ts_ok_release_handover:
  assumes "mutex_ok (v, h # q, r, c)" and "ts_ok (v, h # q, r, c) ts" and "ts t = Open"
    and "final = Committed \<or> final = RolledBack"
  shows "ts_ok (0, q, r @ [h], c @ [t]) (ts(t := finish (ts t) final))"
  using assms(2-) unfolding ts_ok_def finish_def by auto

lemma lock_of_fields:
  "lock_of w = (v, q, r, c) \<Longrightarrow> mvalue w = v \<and> mqueue w = q \<and> mresolved w = r \<and> mcalled w = c"
  by (simp add: lock_of_def)

lemma step_start:
  assumes "tstate s t = Idle"
  shows "step eng cv opts s (StartTransaction t lvl)
       = (if \<exists>l. lvl = Some l \<and> l \<noteq> SERIALIZABLE
          then s\<lparr>tstate := (tstate s)(t := Rejected)\<rparr>
          else s\<lparr>wrld := acquire t (wrld s), tstate := (tstate s)(t := Awaiting)\<rparr>)"
proof (cases lvl)
  case None
  then show ?thesis using assms by (simp add: startTransaction_call_def)
next
  case (Some l)
  then show ?thesis using assms by (cases l) (simp_all add: startTransaction_call_def)
qed

lemma inv_start: 
  assumes "lock_inv s"
  shows "lock_inv (step eng cv opts s (StartTransaction t lvl))"
proof (cases "tstate s t = Idle")
  case False
  then show ?thesis using assms by simp
next
  case True
  obtain v q r c where L: "lock_of (wrld s) = (v, q, r, c)" by (cases "lock_of (wrld s)")
  from assms L have m: "mutex_ok (v, q, r, c)" and ts: "ts_ok (v, q, r, c) (tstate s)"
    and tx: "tx_ok (v, q, r, c) (tstate s) (txn s)" by (simp_all add: lock_inv_def)
  note f = lock_of_fields[OF L]
  from ts_idle_fresh[OF ts True] have fr: "t \<notin> set q" "t \<notin> set r" by simp_all
  show ?thesis
  proof (cases "\<exists>l. lvl = Some l \<and> l \<noteq> SERIALIZABLE")
    case rej: True
    have "ts_ok (v, q, r, c) ((tstate s)(t := Rejected))"
      using ts_ok_leave[OF ts, of t Rejected] True by simp
    moreover have "tx_ok (v, q, r @ [], c) ((tstate s)(t := Rejected)) (txn s)"
      using tx_ok_leave[OF tx, of t] True by blast
    moreover have "step eng cv opts s (StartTransaction t lvl)
                     = s\<lparr>tstate := (tstate s)(t := Rejected)\<rparr>"
      unfolding step_start[OF True] using rej by (rule if_P)
    ultimately show ?thesis using m L
      by (simp add: lock_inv_def del: step.simps)
  next
    case acc: False
    have st: "step eng cv opts s (StartTransaction t lvl)
                = s\<lparr>wrld := acquire t (wrld s), tstate := (tstate s)(t := Awaiting)\<rparr>"
      unfolding step_start[OF True] using acc by (rule if_not_P)
    show ?thesis
    proof (cases "q = [] \<and> 1 \<le> v")
      case free: True
      then have L': "lock_of (acquire t (wrld s)) = (v - 1, [], r @ [t], c)"
        using acquire_free[of "wrld s" t] f by simp
      from free m have m0: "mutex_ok (v, [], r, c)" by simp
      have "mutex_ok (v - 1, [], r @ [t], c)"
        using mutex_ok_acquire_free[OF m0] free fr by simp
      moreover have "ts_ok (v - 1, [] @ [], r @ [t], c) ((tstate s)(t := Awaiting))"
        using ts_ok_acquire[of v "[]" r c "tstate s" t "[]" "[t]" "v - 1"] ts free True by simp
      moreover have "tx_ok (v - 1, [], r @ [t], c) ((tstate s)(t := Awaiting)) (txn s)"
        using tx_ok_leave[OF tx, of t] True by blast
      ultimately show ?thesis using L'
        by (simp add: st lock_inv_def del: step.simps)
    next
      case busy: False
      then have L': "lock_of (acquire t (wrld s)) = (v, q @ [t], r, c)"
        using acquire_busy[of "wrld s" t] f by simp
      have "mutex_ok (v, q @ [t], r, c)"
        using mutex_ok_acquire_busy[OF m] fr by simp
      moreover have "ts_ok (v, q @ [t], r @ [], c) ((tstate s)(t := Awaiting))"
        using ts_ok_acquire[of v q r c "tstate s" t "[t]" "[]" v] ts True by simp
      moreover have "tx_ok (v, q @ [t], r @ [], c) ((tstate s)(t := Awaiting)) (txn s)"
        using tx_ok_leave[OF tx, of t] True by blast
      ultimately show ?thesis using L'
        by (simp add: st lock_inv_def del: step.simps)
    qed
  qed
qed

lemma inv_resume:
  assumes "lock_inv s"
  shows "lock_inv (step eng cv opts s (Resume t))"
proof (cases "tstate s t = Awaiting \<and> t \<in> set (mresolved (wrld s))")
  case False
  then show ?thesis using assms by auto
next
  case True
  obtain v q r c where L: "lock_of (wrld s) = (v, q, r, c)" by (cases "lock_of (wrld s)")
  from assms L have m: "mutex_ok (v, q, r, c)" and ts: "ts_ok (v, q, r, c) (tstate s)"
    and tx: "tx_ok (v, q, r, c) (tstate s) (txn s)" by (simp_all add: lock_inv_def)
  note f = lock_of_fields[OF L]
  from True f have aw: "tstate s t = Awaiting" and tr: "t \<in> set r" by simp_all
  obtain w' res where R: "startTransaction_resume eng cv opts t (wrld s) = (w', res)"
    by (cases "startTransaction_resume eng cv opts t (wrld s)")
  from resume_lock[of eng cv opts t "wrld s"] R L have L': "lock_of w' = (v, q, r, c)" by simp
  show ?thesis
  proof (cases res)
    case (Inl err)
    have "ts_ok (v, q, r, c) ((tstate s)(t := BeginFailed))"
      using ts_ok_leave[OF ts, of t BeginFailed] aw by simp
    moreover have "tx_ok (v, q, r @ [], c) ((tstate s)(t := BeginFailed)) (txn s)"
      using tx_ok_leave[OF tx, of t] aw by blast
    ultimately show ?thesis using m L' R Inl True
      by (simp add: lock_inv_def)
  next
    case (Inr x)
    from resume_tx[of eng cv opts t "wrld s" w' x] R Inr have u: "unlockParent x = t" by simp
    have "ts_ok (v, q, r, c) ((tstate s)(t := Open))"
      using ts_ok_open[OF ts aw tr] .
    moreover have "tx_ok (v, q, r, c) ((tstate s)(t := Open)) ((txn s)(t := Some x))"
      using tx_ok_open[OF tx tr u] .
    ultimately show ?thesis using m L' R Inr True
      by (simp add: lock_inv_def)
  qed
qed

lemma inv_release:
  assumes "lock_inv s" and "txn s t = Some x" and "final = Committed \<or> final = RolledBack"
  shows "lock_inv (s\<lparr>wrld := releaser (unlockParent x) (wrld s),
                     tstate := (tstate s)(t := finish (tstate s t) final)\<rparr>)"
proof -
  obtain v q r c where L: "lock_of (wrld s) = (v, q, r, c)" by (cases "lock_of (wrld s)")
  from assms L have m: "mutex_ok (v, q, r, c)" and ts: "ts_ok (v, q, r, c) (tstate s)"
    and tx: "tx_ok (v, q, r, c) (tstate s) (txn s)" by (simp_all add: lock_inv_def)
  note f = lock_of_fields[OF L]
  from tx_okD[OF tx assms(2)] have u: "unlockParent x = t" and tr: "t \<in> set r" by simp_all
  show ?thesis
  proof (cases "t \<in> set c")
    case True
    then have "releaser t (wrld s) = wrld s" using releaser_called[of t "wrld s"] f by simp
    moreover have "(tstate s)(t := finish (tstate s t) final) = tstate s"
      using tx_called_finish[OF ts True] .
    ultimately show ?thesis using assms(1) u by simp
  next
    case False
    from tx_holder_open[OF tx ts assms(2) False] have op: "tstate s t = Open" by simp
    from sole_holder[OF m tr False] have v0: "v = 0" by simp
    show ?thesis
    proof (cases q)
      case Nil
      have L': "lock_of (releaser t (wrld s)) = (1, [], r, c @ [t])"
        using releaser_idle[of t "wrld s"] False f v0 Nil by simp
      from m Nil have m0: "mutex_ok (v, [], r, c)" by simp
      have "mutex_ok (1, [], r, c @ [t])" using mutex_ok_release_idle[OF m0 tr False] .
      moreover have "ts_ok (1, [], r, c @ [t]) ((tstate s)(t := finish (tstate s t) final))"
        using ts_ok_release_idle[OF m ts op assms(3)] .
      moreover have "tx_ok (1, [], r @ [], c @ [t]) ((tstate s)(t := finish (tstate s t) final)) (txn s)"
        using tx_ok_release[OF tx op assms(3)] .
      ultimately show ?thesis using L' u by (simp add: lock_inv_def)
    next
      case (Cons h q')
      have L': "lock_of (releaser t (wrld s)) = (0, q', r @ [h], c @ [t])"
        using releaser_handover[of t "wrld s" h q'] False f v0 Cons by simp
      from m Cons have m0: "mutex_ok (v, h # q', r, c)" by simp
      from ts Cons have ts0: "ts_ok (v, h # q', r, c) (tstate s)" by simp
      have "mutex_ok (0, q', r @ [h], c @ [t])" using mutex_ok_release_handover[OF m0 tr False] .
      moreover have "ts_ok (0, q', r @ [h], c @ [t]) ((tstate s)(t := finish (tstate s t) final))"
        using ts_ok_release_handover[OF m0 ts0 op assms(3)] .
      moreover have "tx_ok (0, q', r @ [h], c @ [t]) ((tstate s)(t := finish (tstate s t) final)) (txn s)"
        using tx_ok_release[OF tx op assms(3)] .
      ultimately show ?thesis using L' u by (simp add: lock_inv_def)
    qed
  qed
qed

lemma inv_world:
  assumes "lock_inv s" and "lock_of w' = lock_of (wrld s)"
  shows "lock_inv (s\<lparr>wrld := w'\<rparr>)"
  using assms by (simp add: lock_inv_def)

lemma lock_inv_step:
  assumes "lock_inv s"
  shows "lock_inv (step eng cv opts s e)"
proof (cases e)
  case (StartTransaction t lvl)
  then show ?thesis using inv_start[OF assms] by (simp del: step.simps)
next
  case (Resume t)
  then show ?thesis using inv_resume[OF assms] by (simp del: step.simps)
next
  case (Commit t)
  show ?thesis
  proof (cases "txn s t")
    case None
    then show ?thesis using assms Commit by simp
  next
    case (Some x)
    then show ?thesis using inv_release[OF assms Some, of Committed] Commit
      by (simp add: commit_def)
  qed
next
  case (Rollback t)
  show ?thesis
  proof (cases "txn s t")
    case None
    then show ?thesis using assms Rollback by simp
  next
    case (Some x)
    then show ?thesis using inv_release[OF assms Some, of RolledBack] Rollback
      by (simp add: rollback_def)
  qed
next
  case (QueryRaw q)
  then show ?thesis using inv_world[OF assms queryRaw_lock] by simp
next
  case (ExecuteRaw q)
  then show ?thesis using inv_world[OF assms executeRaw_lock] by simp
next
  case (ExecuteScript script)
  then show ?thesis using inv_world[OF assms executeScript_lock] by simp
qed

lemma lock_inv_new: "lock_inv (new_adapter d)"
  by (simp add: lock_inv_def new_adapter_def new_world_def lock_of_def mutex_ok_def ts_ok_def tx_ok_def)

lemma lock_inv_run: "lock_inv s \<Longrightarrow> lock_inv (run_events eng cv opts s es)"
  unfolding run_events_def
  by (induction es arbitrary: s) (simp_all add: lock_inv_step)

lemma run_events_append:
  "run_events eng cv opts s (es @ es') = run_events eng cv opts (run_events eng cv opts s es) es'"
  by (simp add: run_events_def)

lemma open_unique:
  assumes "lock_inv s" and "tstate s i = Open" and "tstate s j = Open"
  shows "i = j"
proof -
  obtain v q r c where L: "lock_of (wrld s) = (v, q, r, c)" by (cases "lock_of (wrld s)")
  from assms L have m: "mutex_ok (v, q, r, c)" and ts: "ts_ok (v, q, r, c) (tstate s)"
    by (simp_all add: lock_inv_def)
  from ts assms(2,3) have i: "i \<in> set r" "i \<notin> set c" and j: "j \<in> set r" "j \<notin> set c"
    unfolding ts_ok_def by auto
  from sole_holder[OF m i] j show ?thesis by blast
qed

lemma open_then:
  "tstate s i = Open \<or> tstate s i = Committed \<or> tstate s i = RolledBack \<Longrightarrow>
   tstate (step eng cv opts s e) i = Open \<or> tstate (step eng cv opts s e) i = Committed
     \<or> tstate (step eng cv opts s e) i = RolledBack"
  by (cases e) (auto simp: finish_def split: option.splits sum.splits prod.splits)

lemma open_then_run:
  "tstate s i = Open \<or> tstate s i = Committed \<or> tstate s i = RolledBack \<Longrightarrow>
   tstate (run_events eng cv opts s es) i = Open \<or> tstate (run_events eng cv opts s es) i = Committed
     \<or> tstate (run_events eng cv opts s es) i = RolledBack"
  unfolding run_events_def
proof (induction es arbitrary: s)
  case Nil
  then show ?case by simp
next
  case (Cons e es)
  from open_then[OF Cons.prems, of eng cv opts e] Cons.IH[of "step eng cv opts s e"]
  show ?case by simp
qed

lemma finished_released:
  assumes "lock_inv s" and "tstate s i = Committed \<or> tstate s i = RolledBack"
  shows "i \<in> set (mcalled (wrld s))"
proof -
  obtain v q r c where L: "lock_of (wrld s) = (v, q, r, c)" by (cases "lock_of (wrld s)")
  from assms L have ts: "ts_ok (v, q, r, c) (tstate s)"
    by (simp_all add: lock_inv_def)
  with assms(2) have "i \<in> set c" unfolding ts_ok_def by simp
  with lock_of_fields[OF L] show ?thesis by simp
qed

text \<open>
  C2. In every interleaving of calls on one adapter, starting from a new adapter: if the
  transaction of call \<open>i\<close> is open at some point and the transaction of another call
  \<open>j\<close> is open at a later point, then by that later point the first has been committed
  or rolled back and its releaser has been called; and \<open>j\<close> was not open at the earlier
  point. So no two transactions are ever open together.
\<close>

theorem second_opens_after_first_ends:
  assumes "tstate (run_events eng cv opts (new_adapter d) es) i = Open"
    and "tstate (run_events eng cv opts (new_adapter d) (es @ es')) j = Open"
    and "i \<noteq> j"
  shows "(tstate (run_events eng cv opts (new_adapter d) (es @ es')) i = Committed
          \<or> tstate (run_events eng cv opts (new_adapter d) (es @ es')) i = RolledBack)
       \<and> i \<in> set (mcalled (wrld (run_events eng cv opts (new_adapter d) (es @ es'))))
       \<and> tstate (run_events eng cv opts (new_adapter d) es) j \<noteq> Open"
proof -
  let ?s = "run_events eng cv opts (new_adapter d) es"
  let ?s' = "run_events eng cv opts (new_adapter d) (es @ es')"
  have inv: "lock_inv ?s" and inv': "lock_inv ?s'"
    by (rule lock_inv_run[OF lock_inv_new])+
  have s': "?s' = run_events eng cv opts ?s es'" by (rule run_events_append)
  from assms(1) open_then_run[of ?s i eng cv opts es'] s'
  have "tstate ?s' i = Open \<or> tstate ?s' i = Committed \<or> tstate ?s' i = RolledBack"
    by simp
  moreover have "tstate ?s' i \<noteq> Open"
    using open_unique[OF inv' _ assms(2)] assms(3) by blast
  ultimately have fin: "tstate ?s' i = Committed \<or> tstate ?s' i = RolledBack" by blast
  have "tstate ?s j \<noteq> Open" using open_unique[OF inv assms(1)] assms(3) by blast
  with fin finished_released[OF inv' fin] show ?thesis by blast
qed

lemmas demo_defs = run_events_def new_adapter_def new_world_def
      startTransaction_call_def startTransaction_resume_def acquire_def dispatchItem_def
      log_call_def demo_engine_def demo_conversion_def demo_query_def executeRaw_def executeIO_def
      mapArgs_def commit_def rollback_def releaser_def release_def dispatchQueue_def finish_def
      Number_of_def onError_def

theorem second_opens_after_first_ends_witness:
  "tstate (run_events demo_engine demo_conversion None (new_adapter False) two_calls) 0 = Open
   \<and> tstate (run_events demo_engine demo_conversion None (new_adapter False)
         (two_calls @ first_commits)) 1 = Open
   \<and> (0::nat) \<noteq> 1
   \<and> tstate (run_events demo_engine demo_conversion None (new_adapter False)
         (two_calls @ first_commits)) 0 = Committed
   \<and> tstate (run_events demo_engine demo_conversion None (new_adapter False) two_calls) 1 = Awaiting"
proof -
  have h1: "tstate (run_events demo_engine demo_conversion None (new_adapter False) two_calls) 0 = Open"
    by (simp add: two_calls_def demo_defs)
  have h2: "tstate (run_events demo_engine demo_conversion None (new_adapter False)
             (two_calls @ first_commits)) 1 = Open"
    by (simp add: two_calls_def first_commits_def demo_defs)
  have h3: "(0::nat) \<noteq> 1" by simp
  have c: "tstate (run_events demo_engine demo_conversion None (new_adapter False)
         (two_calls @ first_commits)) 0 \<noteq> RolledBack"
    by (simp add: two_calls_def first_commits_def demo_defs)
  have a: "tstate (run_events demo_engine demo_conversion None (new_adapter False) two_calls) 1 = Awaiting"
    by (simp add: two_calls_def demo_defs)
  from second_opens_after_first_ends[OF h1 h2 h3] h1 h2 c a
  show ?thesis by simp
qed

subsection \<open>A lock that is never released\<close>

lemma leaked_step:
  assumes "leaked s"
  shows "leaked (step eng cv opts s e)"
proof -
  from assms have inv: "lock_inv s" and v0: "mvalue (wrld s) = 0"
    and no: "\<forall>t. tstate s t \<noteq> Open"
    and aw: "\<forall>t. tstate s t = Awaiting \<longrightarrow> t \<notin> set (mresolved (wrld s))"
    by (simp_all add: leaked_def)
  have inv': "lock_inv (step eng cv opts s e)" by (rule lock_inv_step[OF inv])
  obtain v q r c where L: "lock_of (wrld s) = (v, q, r, c)" by (cases "lock_of (wrld s)")
  from inv L have ts: "ts_ok (v, q, r, c) (tstate s)"
    and tx: "tx_ok (v, q, r, c) (tstate s) (txn s)" by (simp_all add: lock_inv_def)
  note f = lock_of_fields[OF L]
  have called: "txn s t = Some x \<Longrightarrow> unlockParent x \<in> set (mcalled (wrld s)) \<and> tstate s t \<noteq> Open" for t x
  proof -
    assume a: "txn s t = Some x"
    from tx_okD[OF tx a] no have "unlockParent x = t" "tstate s t = Committed \<or> tstate s t = RolledBack"
      by auto
    with ts f no show ?thesis unfolding ts_ok_def by auto
  qed
  have rest: "mvalue (wrld (step eng cv opts s e)) = 0
      \<and> (\<forall>t. tstate (step eng cv opts s e) t \<noteq> Open)
      \<and> (\<forall>t. tstate (step eng cv opts s e) t = Awaiting \<longrightarrow> t \<notin> set (mresolved (wrld (step eng cv opts s e))))"
  proof (cases e)
    case (StartTransaction t lvl)
    show ?thesis
    proof (cases "tstate s t = Idle")
      case False
      then show ?thesis using StartTransaction v0 no aw by simp
    next
      case True
      from ts_idle_fresh[OF ts True] f have "t \<notin> set (mresolved (wrld s))" by simp
      then show ?thesis unfolding StartTransaction step_start[OF True]
        using v0 no aw by (auto simp: acquire_def)
    qed
  next
    case (Resume t)
    then show ?thesis using v0 no aw by auto
  next
    case (Commit t)
    then show ?thesis using v0 no aw called[of t]
      by (cases "txn s t") (auto simp: commit_def releaser_called finish_def)
  next
    case (Rollback t)
    then show ?thesis using v0 no aw called[of t]
      by (cases "txn s t") (auto simp: rollback_def releaser_called finish_def)
  next
    case (QueryRaw q)
    then show ?thesis using v0 no aw lock_of_fields[OF queryRaw_lock[of eng cv opts "wrld s" q, unfolded L]] f
      by simp
  next
    case (ExecuteRaw q)
    then show ?thesis using v0 no aw lock_of_fields[OF executeRaw_lock[of eng cv opts "wrld s" q, unfolded L]] f
      by simp
  next
    case (ExecuteScript script)
    then show ?thesis using v0 no aw lock_of_fields[OF executeScript_lock[of eng cv "wrld s" script, unfolded L]] f
      by simp
  qed
  with inv' show ?thesis by (simp add: leaked_def)
qed

lemma leaked_run: "leaked s \<Longrightarrow> leaked (run_events eng cv opts s es)"
  unfolding run_events_def
  by (induction es arbitrary: s) (simp_all add: leaked_step)

lemma begin_failed_step:
  "tstate s t = BeginFailed \<Longrightarrow> tstate (step eng cv opts s e) t = BeginFailed"
  by (cases e) (auto simp: finish_def split: option.splits sum.splits prod.splits)

lemma begin_failed_run:
  "tstate s t = BeginFailed \<Longrightarrow> tstate (run_events eng cv opts s es) t = BeginFailed"
  unfolding run_events_def
  by (induction es arbitrary: s) (simp_all add: begin_failed_step)

lemma leak_trace_leaked:
  "leaked (run_events demo_engine demo_conversion None (new_adapter False) leak_trace)"
proof -
  have "lock_inv (run_events demo_engine demo_conversion None (new_adapter False) leak_trace)"
    by (rule lock_inv_run[OF lock_inv_new])
  moreover have "mvalue (wrld (run_events demo_engine demo_conversion None (new_adapter False) leak_trace)) = 0"
    by (simp add: leak_trace_def demo_defs)
  moreover have "tstate (run_events demo_engine demo_conversion None (new_adapter False) leak_trace)
                  = (\<lambda>t. if t = 0 then BeginFailed else if t = 1 then Awaiting else Idle)"
    by (rule ext) (simp add: leak_trace_def demo_defs)
  moreover have "mresolved (wrld (run_events demo_engine demo_conversion None (new_adapter False) leak_trace)) = [0]"
    by (simp add: leak_trace_def demo_defs)
  ultimately show ?thesis by (simp add: leaked_def)
qed

text \<open>
  C1. The claim is that the lock is released once for every acquisition, also when
  \<^verbatim>\<open>BEGIN\<close> throws after the lock was acquired. On the interleaving above, call 0
  acquires the lock and its \<^verbatim>\<open>BEGIN\<close> throws; whatever happens afterwards, the releaser
  of call 0 is never called, the lock stays taken and no transaction is ever open again.
\<close>

theorem lock_leaks_when_begin_fails:
  "tstate (run_events demo_engine demo_conversion None (new_adapter False) (leak_trace @ es)) 0
      = BeginFailed
   \<and> mvalue (wrld (run_events demo_engine demo_conversion None (new_adapter False) (leak_trace @ es))) = 0
   \<and> 0 \<notin> set (mcalled (wrld (run_events demo_engine demo_conversion None (new_adapter False)
                               (leak_trace @ es))))
   \<and> tstate (run_events demo_engine demo_conversion None (new_adapter False) (leak_trace @ es)) k
      \<noteq> Open"
proof -
  let ?p = "run_events demo_engine demo_conversion None (new_adapter False) leak_trace"
  let ?s = "run_events demo_engine demo_conversion None (new_adapter False) (leak_trace @ es)"
  have e: "?s = run_events demo_engine demo_conversion None ?p es" by (rule run_events_append)
  have b0: "tstate ?p 0 = BeginFailed" by (simp add: leak_trace_def demo_defs)
  have b: "tstate ?s 0 = BeginFailed" unfolding e by (rule begin_failed_run[OF b0])
  have l: "leaked ?s" unfolding e by (rule leaked_run[OF leak_trace_leaked])
  then have inv: "lock_inv ?s" and v: "mvalue (wrld ?s) = 0" and no: "tstate ?s k \<noteq> Open"
    by (simp_all add: leaked_def)
  have "0 \<notin> set (mcalled (wrld ?s))"
  proof
    assume a: "0 \<in> set (mcalled (wrld ?s))"
    obtain v q r c where L: "lock_of (wrld ?s) = (v, q, r, c)" by (cases "lock_of (wrld ?s)")
    from inv L have ts: "ts_ok (v, q, r, c) (tstate ?s)" by (simp add: lock_inv_def)
    from a lock_of_fields[OF L] have "0 \<in> set c" by simp
    with ts have "tstate ?s 0 = Committed \<or> tstate ?s 0 = RolledBack" unfolding ts_ok_def by simp
    with b show False by simp
  qed
  with b v no show ?thesis by simp
qed

end
